theory Spec2Isabelle
  imports Complex_Main "HOL-Library.Sublist" "HOL-Library.Word"
begin

section \<open>JavaScript strings\<close>

text \<open>
  A JavaScript string is modelled as a \<^typ>\<open>string\<close>.  The three string methods used by the
  path resolvers are \<open>startsWith\<close>, \<open>slice\<close> with one argument, and \<open>split\<close> with a
  one-character separator.
\<close>

definition startsWith :: "string \<Rightarrow> string \<Rightarrow> bool" where
  "startsWith s p \<longleftrightarrow> take (length p) s = p"

definition slice :: "string \<Rightarrow> nat \<Rightarrow> string" where
  "slice s n = drop n s"

text \<open>\<open>s.split(c)\<close>: the pieces between the separators; the empty string gives one empty piece.\<close>

fun split :: "char \<Rightarrow> string \<Rightarrow> string list" where
  "split c [] = [[]]"
| "split c (x # xs) =
     (if x = c then [] # split c xs
      else (case split c xs of [] \<Rightarrow> [[x]] | y # ys \<Rightarrow> (x # y) # ys))"

text \<open>A string is falsy exactly when it is empty.\<close>

definition truthy :: "string \<Rightarrow> bool" where
  "truthy s \<longleftrightarrow> s \<noteq> []"

section \<open>Path-type resolution\<close>

subsection \<open>Prefix strategy (request handler of the older server)\<close>

text \<open>
  \<^verbatim>\<open>const pathMappings = PROTO_PATH_MAPPING ? PROTO_PATH_MAPPING.split(',').map(m => {
      const [path, type] = m.split(':'); return { path, type } }) : []\<close>
\<close>

record pathMapping =
  path :: string
  type :: string

text \<open>
  \<^verbatim>\<open>let typeName = messageType
  if (!typeName && path) {
    const mapping = pathMappings.find(m => path.startsWith(m.path))
    if (mapping) { typeName = mapping.type }
  }\<close>
  A request field that is absent is \<open>None\<close>.
\<close>

definition truthy_opt :: "string option \<Rightarrow> bool" where
  "truthy_opt v = (case v of None \<Rightarrow> False | Some s \<Rightarrow> truthy s)"

definition determineTypeName ::
  "pathMapping list \<Rightarrow> string option \<Rightarrow> string option \<Rightarrow> string option" where
  "determineTypeName pathMappings messageType reqPath =
     (if truthy_opt messageType then messageType
      else (case reqPath of
              None \<Rightarrow> messageType
            | Some p \<Rightarrow>
                if truthy p then
                  (case find (\<lambda>m. startsWith p (path m)) pathMappings of
                     Some mapping \<Rightarrow> Some (type mapping)
                   | None \<Rightarrow> messageType)
                else messageType))"

subsection \<open>Segment strategy (current server)\<close>

text \<open>
  \<^verbatim>\<open>const zkPathTypeMap = new Map()
  if (ZK_PATH_TYPE_MAP) {
    ZK_PATH_TYPE_MAP.split(',').forEach(mapping => {
      const [segment, type] = mapping.split(':').map(s => s.trim())
      if (segment && type) { zkPathTypeMap.set(segment, type) }
    })
  }\<close>
  The \<open>Map\<close> is an association list in insertion order; \<open>set\<close> on a present key replaces
  its value in place.  \<open>String.prototype.trim\<close> is a parameter.
\<close>

type_synonym typeMap = "(string \<times> string) list"

fun mapSet :: "typeMap \<Rightarrow> string \<Rightarrow> string \<Rightarrow> typeMap" where
  "mapSet [] k v = [(k, v)]"
| "mapSet ((k', v') # m) k v = (if k' = k then (k, v) # m else (k', v') # mapSet m k v)"

definition mapGet :: "typeMap \<Rightarrow> string \<Rightarrow> string option" where
  "mapGet m k = map_of m k"

definition addMapping :: "(string \<Rightarrow> string) \<Rightarrow> typeMap \<Rightarrow> string \<Rightarrow> typeMap" where
  "addMapping trim m mapping =
     (case map trim (split CHR '':'' mapping) of
        segment # ty # _ \<Rightarrow> if truthy segment \<and> truthy ty then mapSet m segment ty else m
      | _ \<Rightarrow> m)"

definition parseTypeMap :: "(string \<Rightarrow> string) \<Rightarrow> string \<Rightarrow> typeMap" where
  "parseTypeMap trim ZK_PATH_TYPE_MAP =
     (if truthy ZK_PATH_TYPE_MAP
      then foldl (addMapping trim) [] (split CHR '','' ZK_PATH_TYPE_MAP)
      else [])"

text \<open>
  \<^verbatim>\<open>function getMessageTypeForPath(zkPath) {
    if (!zkPath || zkPathTypeMap.size === 0) return null
    let relativePath = zkPath
    if (ZK_ROOT_PATH && zkPath.startsWith(ZK_ROOT_PATH)) {
      relativePath = zkPath.slice(ZK_ROOT_PATH.length)
    }
    const segments = relativePath.split('/').filter(s => s)
    if (segments.length === 0) return null
    const firstSegment = segments[0]
    return zkPathTypeMap.get(firstSegment) || null
  }\<close>
\<close>

definition getMessageTypeForPath :: "string \<Rightarrow> typeMap \<Rightarrow> string \<Rightarrow> string option" where
  "getMessageTypeForPath ZK_ROOT_PATH zkPathTypeMap zkPath =
     (if \<not> truthy zkPath \<or> length zkPathTypeMap = 0 then None
      else
        let relativePath =
              (if truthy ZK_ROOT_PATH \<and> startsWith zkPath ZK_ROOT_PATH
               then slice zkPath (length ZK_ROOT_PATH) else zkPath);
            segments = filter truthy (split CHR ''/'' relativePath)
        in (case segments of
              [] \<Rightarrow> None
            | firstSegment # _ \<Rightarrow>
                (case mapGet zkPathTypeMap firstSegment of
                   None \<Rightarrow> None
                 | Some t \<Rightarrow> if truthy t then Some t else None)))"

text \<open>The resolver as the specification words it, for comparison with the code.\<close>

definition strip_root_spec :: "string \<Rightarrow> string \<Rightarrow> string" where
  "strip_root_spec rootPath p = (if prefix rootPath p then drop (length rootPath) p else p)"

definition first_segment_spec :: "string \<Rightarrow> string option" where
  "first_segment_spec r =
     (let r' = dropWhile (\<lambda>c. c = CHR ''/'') r
      in if r' = [] then None else Some (takeWhile (\<lambda>c. c \<noteq> CHR ''/'') r'))"

definition segment_resolution_spec :: "string \<Rightarrow> typeMap \<Rightarrow> string \<Rightarrow> string option" where
  "segment_resolution_spec rootPath tbl p =
     (case first_segment_spec (strip_root_spec rootPath p) of
        None \<Rightarrow> None
      | Some seg \<Rightarrow> map_of tbl seg)"


subsection \<open>Segment strategy (client helper)\<close>

text \<open>
  The user interface repeats the resolver over the table it fetched from the server
  (\<open>zkPathTypeMappings\<close>, the JSON object \<open>Object.fromEntries(zkPathTypeMap)\<close>):
  \<^verbatim>\<open>function getAutoTypeForPath(path, zkRootPath, zkPathTypeMappings) {
    if (!zkPathTypeMappings || Object.keys(zkPathTypeMappings).length === 0) return null
    let relativePath = path
    if (zkRootPath && path.startsWith(zkRootPath)) {
      relativePath = path.slice(zkRootPath.length)
    }
    const segments = relativePath.split('/').filter(s => s)
    if (segments.length > 0) {
      return zkPathTypeMappings[segments[0]] || null
    }
    return null
  }\<close>
  The table is a plain object, given by the list of its own properties.  Reading
  \<open>object[key]\<close> yields the own property when there is one and otherwise what the object
  inherits from \<open>Object.prototype\<close> under that name: a function for the eleven method
  names, the prototype object itself for \<open>__proto__\<close>; all of them are truthy.  So the
  helper returns a type name, an inherited member, or \<open>null\<close>.
\<close>

datatype auto_type = TypeName string | InheritedMember string | NoType

definition object_prototype_members :: "string list" where
  "object_prototype_members =
     [''constructor'', ''hasOwnProperty'', ''isPrototypeOf'', ''propertyIsEnumerable'',
      ''toLocaleString'', ''toString'', ''valueOf'', ''__defineGetter__'', ''__defineSetter__'',
      ''__lookupGetter__'', ''__lookupSetter__'', ''__proto__'']"

definition readProperty_or_null :: "typeMap \<Rightarrow> string \<Rightarrow> auto_type" where
  "readProperty_or_null object key =
     (case map_of object key of
        Some t \<Rightarrow> if truthy t then TypeName t else NoType
      | None \<Rightarrow> if key \<in> set object_prototype_members then InheritedMember key else NoType)"

definition getAutoTypeForPath :: "string \<Rightarrow> string \<Rightarrow> typeMap \<Rightarrow> auto_type" where
  "getAutoTypeForPath p zkRootPath zkPathTypeMappings =
     (if length zkPathTypeMappings = 0 then NoType
      else
        let relativePath =
              (if truthy zkRootPath \<and> startsWith p zkRootPath
               then slice p (length zkRootPath) else p);
            segments = filter truthy (split CHR ''/'' relativePath)
        in (case segments of
              [] \<Rightarrow> NoType
            | firstSegment # _ \<Rightarrow> readProperty_or_null zkPathTypeMappings firstSegment))"

section \<open>Schema loader: import-path resolver\<close>

text \<open>
  The resolver closes over the configuration constants and uses Node's \<open>path.join\<close> and
  \<open>path.dirname\<close> and the location of the protobufjs main module
  (\<open>require.resolve('protobufjs')\<close>); they are the fields of the environment.
\<close>

record resolverEnv =
  PROTO_DIR :: string
  PROTO_IMPORT_PREFIX :: string
  GOOGLE_PROTOS_DIR :: string
  protobufjsMain :: string
  join :: "string \<Rightarrow> string \<Rightarrow> string"
  dirname :: "string \<Rightarrow> string"

text \<open>
  \<^verbatim>\<open>protoRoot.resolvePath = (origin, target) => {
    if (target.startsWith('/')) { return target }
    if (target.startsWith('google/protobuf/')) {
      return join(dirname(require.resolve('protobufjs')), target) }
    if (target.startsWith('google/api/')) { return join(GOOGLE_PROTOS_DIR, target) }
    if (PROTO_IMPORT_PREFIX && target.startsWith(PROTO_IMPORT_PREFIX)) {
      return join(PROTO_DIR, target.slice(PROTO_IMPORT_PREFIX.length)) }
    if (origin) { return join(dirname(origin), target) }
    return join(PROTO_DIR, target)
  }\<close>
  The library passes the importing file as \<open>origin\<close>, the empty string for a root file.
\<close>

definition resolvePath :: "resolverEnv \<Rightarrow> string \<Rightarrow> string \<Rightarrow> string" where
  "resolvePath env origin target =
     (if startsWith target ''/'' then target
      else if startsWith target ''google/protobuf/'' then
        join env (dirname env (protobufjsMain env)) target
      else if startsWith target ''google/api/'' then
        join env (GOOGLE_PROTOS_DIR env) target
      else if truthy (PROTO_IMPORT_PREFIX env) \<and> startsWith target (PROTO_IMPORT_PREFIX env) then
        join env (PROTO_DIR env) (slice target (length (PROTO_IMPORT_PREFIX env)))
      else if truthy origin then
        join env (dirname env origin) target
      else join env (PROTO_DIR env) target)"

text \<open>The precedence list as the specification words it: six rules, each with the condition
  under which it applies and the path it yields; the first applicable rule in the list is
  taken.\<close>

datatype import_rule =
  AbsoluteTarget | BundledLibrary | AuxiliaryLibrary | ConfiguredPrefix
  | RelativeToImporter | SchemaDirectory

definition import_rules :: "import_rule list" where
  "import_rules = [AbsoluteTarget, BundledLibrary, AuxiliaryLibrary, ConfiguredPrefix,
     RelativeToImporter, SchemaDirectory]"

fun rule_applies :: "resolverEnv \<Rightarrow> string \<Rightarrow> string \<Rightarrow> import_rule \<Rightarrow> bool" where
  "rule_applies env origin target AbsoluteTarget = prefix ''/'' target"
| "rule_applies env origin target BundledLibrary = prefix ''google/protobuf/'' target"
| "rule_applies env origin target AuxiliaryLibrary = prefix ''google/api/'' target"
| "rule_applies env origin target ConfiguredPrefix =
     (PROTO_IMPORT_PREFIX env \<noteq> [] \<and> prefix (PROTO_IMPORT_PREFIX env) target)"
| "rule_applies env origin target RelativeToImporter = (origin \<noteq> [])"
| "rule_applies env origin target SchemaDirectory = True"

fun rule_result :: "resolverEnv \<Rightarrow> string \<Rightarrow> string \<Rightarrow> import_rule \<Rightarrow> string" where
  "rule_result env origin target AbsoluteTarget = target"
| "rule_result env origin target BundledLibrary =
     join env (dirname env (protobufjsMain env)) target"
| "rule_result env origin target AuxiliaryLibrary = join env (GOOGLE_PROTOS_DIR env) target"
| "rule_result env origin target ConfiguredPrefix =
     join env (PROTO_DIR env) (drop (length (PROTO_IMPORT_PREFIX env)) target)"
| "rule_result env origin target RelativeToImporter = join env (dirname env origin) target"
| "rule_result env origin target SchemaDirectory = join env (PROTO_DIR env) target"

definition first_applicable :: "resolverEnv \<Rightarrow> string \<Rightarrow> string \<Rightarrow> import_rule option" where
  "first_applicable env origin target = find (rule_applies env origin target) import_rules"

section \<open>JavaScript numbers\<close>

text \<open>
  A JavaScript number is an IEEE-754 binary64 value: a finite double (its exact rational
  value; \<open>+0\<close> is \<open>Fin 0\<close>), negative zero, an infinity, or not-a-number.
\<close>

datatype jsnum = Fin rat | NegZero | PosInf | NegInf | NaN

text \<open>The number of binary digits of a natural number.\<close>

fun bitlen :: "nat \<Rightarrow> nat" where
  "bitlen n = (if n = 0 then 0 else Suc (bitlen (n div 2)))"

declare bitlen.simps [simp del]

definition pow2 :: "int \<Rightarrow> rat" where
  "pow2 k = (if 0 \<le> k then 2 ^ nat k else 1 / 2 ^ nat (- k))"

definition round_half_even :: "rat \<Rightarrow> int" where
  "round_half_even x =
     (let f = \<lfloor>x\<rfloor>; d = x - of_int f
      in if d > 1 / 2 \<or> (d = 1 / 2 \<and> odd f) then f + 1 else f)"

text \<open>
  Round-to-nearest, ties-to-even, of a positive rational to binary64: with \<open>e\<close> the binary
  exponent of \<open>q\<close> (at least \<open>-1022\<close>, below which doubles are subnormal), the value is
  rounded to a multiple of \<open>2 ^ (e - 52)\<close>; \<open>None\<close> is overflow.
\<close>

definition toDoubleAbs :: "rat \<Rightarrow> rat option" where
  "toDoubleAbs q =
     (let (a, b) = quotient_of q;
          e0 = int (bitlen (nat a)) - int (bitlen (nat b));
          e = (if pow2 e0 \<le> q then e0 else e0 - 1);
          k = max e (- 1022) - 52;
          r = of_int (round_half_even (q / pow2 k)) * pow2 k
      in if pow2 1024 \<le> r then None else Some r)"

text \<open>The number value of a sign and a magnitude \<open>q \<ge> 0\<close>.\<close>

definition toDouble :: "bool \<Rightarrow> rat \<Rightarrow> jsnum" where
  "toDouble neg q =
     (if q = 0 then (if neg then NegZero else Fin 0)
      else (case toDoubleAbs q of
              None \<Rightarrow> if neg then NegInf else PosInf
            | Some r \<Rightarrow> if r = 0 then (if neg then NegZero else Fin 0)
                        else Fin (if neg then - r else r)))"

text \<open>\<open>Number.isSafeInteger\<close>: an integral number of magnitude at most \<open>2^53 - 1\<close>.\<close>

definition isSafeInteger :: "jsnum \<Rightarrow> bool" where
  "isSafeInteger x =
     (case x of
        Fin q \<Rightarrow> of_int \<lfloor>q\<rfloor> = q \<and> \<bar>q\<bar> \<le> 2 ^ 53 - 1
      | NegZero \<Rightarrow> True
      | _ \<Rightarrow> False)"

section \<open>Numeric strings\<close>

definition is_digit :: "char \<Rightarrow> bool" where
  "is_digit c \<longleftrightarrow> c \<in> set ''0123456789''"

definition digit_val :: "char \<Rightarrow> nat" where
  "digit_val c = of_char c - 48"

definition digits_val :: "string \<Rightarrow> nat" where
  "digits_val ds = foldl (\<lambda>acc c. 10 * acc + digit_val c) 0 ds"

definition all_digits :: "string \<Rightarrow> bool" where
  "all_digits s \<longleftrightarrow> s \<noteq> [] \<and> list_all is_digit s"

definition strip_minus :: "string \<Rightarrow> bool \<times> string" where
  "strip_minus s =
     (case s of c # r \<Rightarrow> if c = CHR ''-'' then (True, r) else (False, s) | [] \<Rightarrow> (False, s))"

text \<open>\<^verbatim>\<open>/^-?\d+$/.test(s)\<close>\<close>

definition matches_integer :: "string \<Rightarrow> bool" where
  "matches_integer s = all_digits (snd (strip_minus s))"

text \<open>\<^verbatim>\<open>/^-?\d+\.\d+$/.test(s)\<close>\<close>

definition matches_decimal :: "string \<Rightarrow> bool" where
  "matches_decimal s =
     (let r = snd (strip_minus s); a = takeWhile is_digit r; b = dropWhile is_digit r
      in a \<noteq> [] \<and> (case b of c # f \<Rightarrow> c = CHR ''.'' \<and> all_digits f | [] \<Rightarrow> False))"

text \<open>\<open>Number(s)\<close> for a string of the integer pattern: the double nearest to the integer
  written, negative zero for a negated zero.\<close>

definition Number :: "string \<Rightarrow> jsnum" where
  "Number s = (let (neg, ds) = strip_minus s in toDouble neg (of_nat (digits_val ds)))"

text \<open>\<open>parseFloat(s)\<close> for a string of the decimal pattern: the double nearest to the decimal
  fraction written.\<close>

definition parseFloat :: "string \<Rightarrow> jsnum" where
  "parseFloat s =
     (let (neg, r) = strip_minus s;
          a = takeWhile is_digit r;
          f = tl (dropWhile is_digit r)
      in toDouble neg (of_nat (digits_val (a @ f)) / 10 ^ length f))"

section \<open>JSON values and the encode normalization\<close>

text \<open>
  The values \<open>convertStringNumbers\<close> distinguishes.  An object is its prototype and the
  list of its own enumerable properties in the order \<open>Object.entries\<close> reports them (each
  key once).  The prototype \<open>None\<close> is \<open>Object.prototype\<close>, which every object built by
  \<open>JSON.parse\<close> or by \<open>{}\<close> starts with; \<open>Some v\<close> is a prototype installed through the
  \<open>__proto__\<close> setter: \<open>null\<close>, an object or an array.
\<close>

datatype json =
  JNull | JUndefined | JBool bool | JNum jsnum | JStr string
  | JArr "json list" | JObj (proto: "json option") (props: "(string \<times> json) list")

text \<open>
  \<open>result[key] = v\<close> on an object created by \<open>{}\<close>.  For every key but one this defines or
  overwrites the own property \<open>key\<close>.  The key \<open>__proto__\<close> is the accessor inherited from
  \<open>Object.prototype\<close>: the assignment calls its setter, which replaces the prototype when
  \<open>v\<close> is an object, an array or \<open>null\<close>, does nothing for any other value, and in neither
  case creates an own property.
\<close>

fun assignOwn :: "(string \<times> json) list \<Rightarrow> string \<Rightarrow> json \<Rightarrow> (string \<times> json) list" where
  "assignOwn [] k v = [(k, v)]"
| "assignOwn ((k', v') # ps) k v =
     (if k' = k then (k, v) # ps else (k', v') # assignOwn ps k v)"

definition is_object_or_null :: "json \<Rightarrow> bool" where
  "is_object_or_null v = (case v of JNull \<Rightarrow> True | JArr xs \<Rightarrow> True | JObj p es \<Rightarrow> True | _ \<Rightarrow> False)"

type_synonym js_object = "json option \<times> (string \<times> json) list"

definition setProperty :: "js_object \<Rightarrow> string \<Rightarrow> json \<Rightarrow> js_object" where
  "setProperty result key v =
     (if key = ''__proto__'' then
        (if is_object_or_null v then (Some v, snd result) else result)
      else (fst result, assignOwn (snd result) key v))"

text \<open>
  \<^verbatim>\<open>function convertStringNumbers(obj) {
    if (obj === null || obj === undefined) return obj
    if (Array.isArray(obj)) { return obj.map(convertStringNumbers) }
    if (typeof obj === 'object') {
      const result = {}
      for (const [key, value] of Object.entries(obj)) {
        result[key] = convertStringNumbers(value)
      }
      return result
    }
    if (typeof obj === 'string') {
      if (/^-?\d+$/.test(obj)) {
        const num = Number(obj)
        if (Number.isSafeInteger(num)) { return num }
        return obj
      }
      if (/^-?\d+\.\d+$/.test(obj)) { return parseFloat(obj) }
    }
    return obj
  }\<close>
  \<open>Object.entries\<close> reads the own properties only, so the prototype of the argument is not
  consulted; the result starts as \<open>{}\<close>, that is \<open>(None, [])\<close>.
\<close>

fun convertStringNumbers :: "json \<Rightarrow> json" where
  "convertStringNumbers JNull = JNull"
| "convertStringNumbers JUndefined = JUndefined"
| "convertStringNumbers (JArr xs) = JArr (map convertStringNumbers xs)"
| "convertStringNumbers (JObj p es) =
     (let result = foldl (\<lambda>result (key, v). setProperty result key (convertStringNumbers v))
                     (None, []) es
      in JObj (fst result) (snd result))"
| "convertStringNumbers (JStr s) =
     (if matches_integer s then
        (let num = Number s in if isSafeInteger num then JNum num else JStr s)
      else if matches_decimal s then JNum (parseFloat s)
      else JStr s)"
| "convertStringNumbers (JBool b) = JBool b"
| "convertStringNumbers (JNum n) = JNum n"

text \<open>The number a sign and an integer magnitude stand for, when it needs no rounding.\<close>

definition signed_int :: "bool \<Rightarrow> nat \<Rightarrow> jsnum" where
  "signed_int neg m =
     (if m = 0 then (if neg then NegZero else Fin 0)
      else Fin (if neg then - of_nat m else of_nat m))"

text \<open>The loop of the object case, from any partial result.\<close>

definition assignAll :: "(json \<Rightarrow> json) \<Rightarrow> js_object \<Rightarrow> (string \<times> json) list \<Rightarrow> js_object" where
  "assignAll f acc es = foldl (\<lambda>result (key, v). setProperty result key (f v)) acc es"

text \<open>
  Values as \<open>JSON.parse\<close> builds them (each object has the prototype \<open>Object.prototype\<close>
  and lists each key once) in which, moreover, no object has an own property named
  \<open>__proto__\<close>.
\<close>

fun well_formed :: "json \<Rightarrow> bool" where
  "well_formed (JArr xs) = list_all well_formed xs"
| "well_formed (JObj p es) =
     (p = None \<and> distinct (map fst es) \<and> ''__proto__'' \<notin> set (map fst es) \<and>
      list_all (\<lambda>e. well_formed (snd e)) es)"
| "well_formed _ = True"

text \<open>
  The shape of a value is kept: arrays keep their length, objects their prototype and
  their keys in order, every leaf that is not a string is the same, and a string leaf is
  the same string or has become a number.
\<close>

inductive shape_preserved :: "json \<Rightarrow> json \<Rightarrow> bool" where
  "shape_preserved JNull JNull"
| "shape_preserved JUndefined JUndefined"
| "shape_preserved (JBool b) (JBool b)"
| "shape_preserved (JNum n) (JNum n)"
| "shape_preserved (JStr s) (JStr s)"
| "shape_preserved (JStr s) (JNum n)"
| "list_all2 shape_preserved xs ys \<Longrightarrow> shape_preserved (JArr xs) (JArr ys)"
| "map fst es = map fst fs \<Longrightarrow> list_all2 shape_preserved (map snd es) (map snd fs)
     \<Longrightarrow> shape_preserved (JObj p es) (JObj p fs)"

text \<open>
  Positions inside a value: an array index or an object key at each step.  \<open>value_at x p\<close>
  is the value found by following \<open>p\<close> through own properties and array elements.
\<close>

datatype step = Index nat | Key string

fun child :: "json \<Rightarrow> step \<Rightarrow> json option" where
  "child (JArr xs) (Index i) = (if i < length xs then Some (xs ! i) else None)"
| "child (JObj p es) (Key k) = map_of es k"
| "child _ _ = None"

fun value_at :: "json \<Rightarrow> step list \<Rightarrow> json option" where
  "value_at x [] = Some x"
| "value_at x (s # p) = (case child x s of None \<Rightarrow> None | Some c \<Rightarrow> value_at c p)"

text \<open>What the normalization makes of a string, as the specification words it.\<close>

definition normalized_string :: "string \<Rightarrow> json" where
  "normalized_string s =
     (if matches_integer s then
        (if digits_val (snd (strip_minus s)) \<le> 2 ^ 53 - 1
         then JNum (signed_int (fst (strip_minus s)) (digits_val (snd (strip_minus s))))
         else JStr s)
      else if matches_decimal s then JNum (parseFloat s)
      else JStr s)"

section \<open>Type registry\<close>

text \<open>
  The compiled registry is protobufjs's tree of reflection objects.  A node has a class
  (namespace, message type, enum, service, or field for an extension declared in a
  namespace) and, for the namespace-like classes, the object \<open>nested\<close> of its named
  children; \<open>nested\<close> is undefined exactly when there are none, which is the empty list
  here.  The root is a namespace without a name.
\<close>

datatype kind = KNamespace | KType | KEnum | KService | KField

datatype reflection = ReflectionObject (kind: kind) (nested: "(string \<times> reflection) list")

text \<open>
  \<^verbatim>\<open>messageTypes = []
  function extractTypes(ns, prefix = '') {
    for (const [name, value] of Object.entries(ns.nested || {})) {
      const fullName = prefix ? `${prefix}.${name}` : name
      if (value instanceof protobuf.Type) { messageTypes.push(fullName) }
      if (value.nested) { extractTypes(value, fullName) }
    }
  }
  extractTypes(protoRoot)\<close>
  The list \<open>messageTypes\<close> is threaded through; \<open>extractEntries\<close> is the \<open>for\<close> loop.
\<close>

fun extractTypes :: "reflection \<Rightarrow> string \<Rightarrow> string list \<Rightarrow> string list"
  and extractEntries :: "(string \<times> reflection) list \<Rightarrow> string \<Rightarrow> string list \<Rightarrow> string list" where
  "extractTypes (ReflectionObject k entries) pfx messageTypes = extractEntries entries pfx messageTypes"
| "extractEntries [] pfx messageTypes = messageTypes"
| "extractEntries ((name, v) # rest) pfx messageTypes =
     (let fullName = (if truthy pfx then pfx @ ''.'' @ name else name);
          pushed = (if kind v = KType then messageTypes @ [fullName] else messageTypes);
          visited = (if nested v \<noteq> [] then extractTypes v fullName pushed else pushed)
      in extractEntries rest pfx visited)"

text \<open>
  The traversal as the specification words it: the paths (lists of names from the root) of the
  message-type nodes, in depth-first order, a node before its descendants; nodes of the
  other classes are walked through and not listed.  The fully qualified name of a path is
  its names joined by dots.
\<close>

fun type_paths :: "reflection \<Rightarrow> string list list"
  and type_paths_entries :: "(string \<times> reflection) list \<Rightarrow> string list list" where
  "type_paths (ReflectionObject k entries) = type_paths_entries entries"
| "type_paths_entries [] = []"
| "type_paths_entries ((name, v) # rest) =
     (if kind v = KType then [[name]] else []) @ map ((#) name) (type_paths v)
       @ type_paths_entries rest"

fun dotted :: "string list \<Rightarrow> string" where
  "dotted [] = []"
| "dotted [n] = n"
| "dotted (n # m # ns) = n @ ''.'' @ dotted (m # ns)"

text \<open>The node a path leads to.\<close>

fun node_at :: "reflection \<Rightarrow> string list \<Rightarrow> reflection option"
  and node_in :: "(string \<times> reflection) list \<Rightarrow> string \<Rightarrow> string list \<Rightarrow> reflection option" where
  "node_at r [] = Some r"
| "node_at (ReflectionObject k entries) (n # p) = node_in entries n p"
| "node_in [] n p = None"
| "node_in ((m, c) # rest) n p = (if m = n then node_at c p else node_in rest n p)"

text \<open>
  Registry lookup by name, \<open>Root.lookupType\<close> of protobufjs (library code, modelled after the
  library's \<open>Namespace.prototype.lookup\<close> with the filter \<open>[Type]\<close>, started at the root):
  the name is split at the dots; when the first part names a child, a one-part path yields
  that child if it is a message type, and a longer path continues inside the child if it is
  namespace-like; when the first part names no child, each namespace-like child is
  searched for the whole path in turn.  \<open>None\<close> is the library's "no such type" error.
\<close>

definition is_namespace :: "reflection \<Rightarrow> bool" where
  "is_namespace r \<longleftrightarrow> kind r \<in> {KNamespace, KType, KService}"

lemma map_of_size: "map_of es n = Some c \<Longrightarrow> size c < Suc (size_list (size_prod (\<lambda>_. 0) size) es)"
  by (induction es) (auto split: if_splits)

function lookup :: "reflection \<Rightarrow> string list \<Rightarrow> reflection option"
  and lookup_each :: "(string \<times> reflection) list \<Rightarrow> string list \<Rightarrow> reflection option" where
  "lookup ns [] = Some ns"
| "lookup (ReflectionObject k entries) (p # ps) =
     (case map_of entries p of
        Some found \<Rightarrow>
          if ps = [] then (if kind found = KType then Some found else None)
          else if is_namespace found then lookup found ps
          else None
      | None \<Rightarrow> lookup_each entries (p # ps))"
| "lookup_each [] pth = None"
| "lookup_each ((n, c) # rest) pth =
     (if is_namespace c then
        (case lookup c pth of Some found \<Rightarrow> Some found | None \<Rightarrow> lookup_each rest pth)
      else lookup_each rest pth)"
  by pat_completeness auto
termination
  by (relation "measure (\<lambda>x. case x of Inl (r, p) \<Rightarrow> size r | Inr (es, p) \<Rightarrow> size_list (size_prod (\<lambda>_. 0) size) es)")
    (auto dest: map_of_size)

definition lookupType :: "reflection \<Rightarrow> string \<Rightarrow> reflection option" where
  "lookupType protoRoot name = lookup protoRoot (split CHR ''.'' name)"

text \<open>
  What every compiled registry satisfies: the children of a node have different names
  (they are the keys of one object), only namespace-like nodes have children, and a name is
  a non-empty identifier without a dot.
\<close>

fun wf_registry :: "reflection \<Rightarrow> bool" where
  "wf_registry (ReflectionObject k entries) =
     (distinct (map fst entries) \<and>
      (entries \<noteq> [] \<longrightarrow> k \<in> {KNamespace, KType, KService}) \<and>
      list_all (\<lambda>e. fst e \<noteq> [] \<and> CHR ''.'' \<notin> set (fst e) \<and> wf_registry (snd e)) entries)"

text \<open>The dotted name of a path below a prefix, as \<open>extractTypes\<close> builds it on the way down.\<close>

definition qualify :: "string \<Rightarrow> string list \<Rightarrow> string" where
  "qualify pfx p = (if pfx = [] then dotted p else pfx @ ''.'' @ dotted p)"

text \<open>A small registry: package \<open>pkg\<close> with a message holding an enum and a nested message, a
  second message, and a message outside any package.\<close>

definition example_registry :: reflection where
  "example_registry = ReflectionObject KNamespace
     [(''pkg'', ReflectionObject KNamespace
        [(''Backend'', ReflectionObject KType
            [(''Status'', ReflectionObject KEnum []),
             (''Endpoint'', ReflectionObject KType [])]),
         (''Config'', ReflectionObject KType [])]),
      (''Ping'', ReflectionObject KType [])]"

section \<open>Stat formatter\<close>





















subsection \<open>What the formatter is to produce\<close>





subsection \<open>An example runtime and two raw records\<close>







section \<open>Properties of the string helpers\<close>

lemma startsWith_prefix: "startsWith s p \<longleftrightarrow> prefix p s"
  by (metis startsWith_def append_eq_conv_conj prefix_def)

lemma split_nonempty: "split c xs \<noteq> []"
  by (induction xs) (auto split: list.splits)

lemma hd_split: "split c xs = y # ys \<Longrightarrow> y = takeWhile (\<lambda>a. a \<noteq> c) xs"
  using split_nonempty[of c]
  by (induction xs arbitrary: y ys) (auto split: list.splits if_splits)

lemma first_of_split:
  "(case filter truthy (split c r) of
      [] \<Rightarrow> dropWhile (\<lambda>a. a = c) r = []
    | s # _ \<Rightarrow> dropWhile (\<lambda>a. a = c) r \<noteq> [] \<and>
               s = takeWhile (\<lambda>a. a \<noteq> c) (dropWhile (\<lambda>a. a = c) r))"
proof (induction r)
  case Nil
  show ?case by (simp add: truthy_def)
next
  case (Cons x xs)
  show ?case
  proof (cases "x = c")
    case True
    have a: "filter truthy (split c (x # xs)) = filter truthy (split c xs)"
      using True by (simp add: truthy_def)
    have b: "dropWhile (\<lambda>a. a = c) (x # xs) = dropWhile (\<lambda>a. a = c) xs"
      using True by simp
    show ?thesis unfolding a b by (rule Cons.IH)
  next
    case False
    obtain y ys where s: "split c xs = y # ys"
      using split_nonempty[of c xs] by (cases "split c xs") auto
    from hd_split[OF s] False s show ?thesis by (simp add: truthy_def)
  qed
qed

section \<open>Segment strategy\<close>

lemma segments_first_segment:
  "(case filter truthy (split CHR ''/'' r) of [] \<Rightarrow> None | s # _ \<Rightarrow> Some s) = first_segment_spec r"
  using first_of_split[of "CHR ''/''" r]
  by (auto simp: first_segment_spec_def Let_def split: list.splits)

text \<open>What the specification's first segment is: nothing when the path is made of slashes only,
  otherwise the maximal slash-free run after the leading slashes.\<close>

lemma first_segment_spec_None_iff: "first_segment_spec r = None \<longleftrightarrow> set r \<subseteq> {CHR ''/''}"
  by (auto simp: first_segment_spec_def Let_def dropWhile_eq_Nil_conv)

lemma first_segment_spec_decompose:
  assumes "seg \<noteq> []" "CHR ''/'' \<notin> set seg" "rest = [] \<or> hd rest = CHR ''/''"
  shows "first_segment_spec (replicate n CHR ''/'' @ seg @ rest) = Some seg"
proof -
  have d: "dropWhile (\<lambda>c. c = CHR ''/'') (replicate n CHR ''/'' @ seg @ rest) = seg @ rest"
    using assms(1,2) by (induction n) (auto simp: dropWhile_append3 neq_Nil_conv)
  have t: "takeWhile (\<lambda>c. c \<noteq> CHR ''/'') (seg @ rest) = seg"
  proof (cases rest)
    case Nil
    with assms(2) show ?thesis by (auto simp: takeWhile_eq_all_conv)
  next
    case (Cons r rs)
    with assms(3) have "r = CHR ''/''" by simp
    with Cons assms(2) show ?thesis by (auto simp: takeWhile_tail takeWhile_eq_all_conv)
  qed
  show ?thesis using assms(1) by (simp add: first_segment_spec_def d t)
qed

text \<open>The table built from the configuration never holds an empty segment or an empty type.\<close>

lemma mapSet_values:
  "(\<forall>(k, t) \<in> set m. t \<noteq> []) \<Longrightarrow> v \<noteq> [] \<Longrightarrow> (\<forall>(k, t) \<in> set (mapSet m k' v). t \<noteq> [])"
  by (induction m k' v rule: mapSet.induct) auto

lemma addMapping_values:
  assumes "\<forall>(k, t) \<in> set m. t \<noteq> []"
  shows "\<forall>(k, t) \<in> set (addMapping trim m mapping). t \<noteq> []"
proof (cases "map trim (split CHR '':'' mapping)")
  case Nil
  with assms show ?thesis by (simp add: addMapping_def)
next
  case (Cons segment rest)
  show ?thesis
  proof (cases rest)
    case Nil
    with Cons assms show ?thesis by (simp add: addMapping_def)
  next
    case (Cons ty rest')
    show ?thesis
    proof (cases "truthy segment \<and> truthy ty")
      case True
      then have "ty \<noteq> []" by (simp add: truthy_def)
      from mapSet_values[OF assms this, of segment] True \<open>map trim (split CHR '':'' mapping) = segment # rest\<close> Cons
      show ?thesis by (simp add: addMapping_def)
    next
      case False
      with \<open>map trim (split CHR '':'' mapping) = segment # rest\<close> Cons assms
      show ?thesis by (auto simp: addMapping_def)
    qed
  qed
qed

lemma foldl_addMapping_values:
  "(\<forall>(k, t) \<in> set m. t \<noteq> []) \<Longrightarrow> (\<forall>(k, t) \<in> set (foldl (addMapping trim) m xs). t \<noteq> [])"
proof (induction xs arbitrary: m)
  case Nil
  then show ?case by simp
next
  case (Cons x xs)
  from Cons.IH[OF addMapping_values[OF Cons.prems]] show ?case by simp
qed

lemma parseTypeMap_values_set: "\<forall>(k, t) \<in> set (parseTypeMap trim cfg). t \<noteq> []"
proof (cases "truthy cfg")
  case True
  have "\<forall>(k, t) \<in> set (foldl (addMapping trim) [] (split CHR '','' cfg)). t \<noteq> []"
    by (rule foldl_addMapping_values) simp
  with True show ?thesis by (simp add: parseTypeMap_def)
next
  case False
  then show ?thesis by (simp add: parseTypeMap_def)
qed

lemma parseTypeMap_values: "list_all (\<lambda>(k, t). truthy t) (parseTypeMap trim cfg)"
  using parseTypeMap_values_set[of trim cfg] by (auto simp: list_all_iff truthy_def)

text \<open>
  The server's resolver.  With a table whose types are all non-empty (as every table built
  by \<open>parseTypeMap\<close> is), \<open>getMessageTypeForPath\<close> strips the configured root prefix when the
  path starts with it, takes the first non-empty \<open>/\<close>-delimited segment of the remainder and
  returns the type the table maps it to; it returns nothing when there is no segment or the
  segment is not a key.  Only the first segment enters the result.
\<close>

theorem getMessageTypeForPath_segment_strategy:
  assumes "list_all (\<lambda>(k, t). truthy t) tbl"
  shows "getMessageTypeForPath rootPath tbl p = segment_resolution_spec rootPath tbl p"
proof -
  have strip: "(if truthy rootPath \<and> startsWith p rootPath then slice p (length rootPath) else p)
      = strip_root_spec rootPath p"
    by (auto simp: strip_root_spec_def startsWith_prefix slice_def truthy_def)
  have nonempty: "map_of tbl s = Some t \<Longrightarrow> t \<noteq> []" for s t
    using assms by (auto simp: list_all_iff truthy_def dest!: map_of_SomeD)
  show ?thesis
  proof (cases "\<not> truthy p \<or> length tbl = 0")
    case True
    then show ?thesis
      by (auto simp: getMessageTypeForPath_def segment_resolution_spec_def truthy_def
          strip_root_spec_def first_segment_spec_def split: option.splits)
  next
    case False
    then show ?thesis
      unfolding getMessageTypeForPath_def segment_resolution_spec_def Let_def strip
        segments_first_segment[symmetric]
      by (auto simp: mapGet_def truthy_def split: list.splits option.splits dest: nonempty)
  qed
qed

theorem getMessageTypeForPath_segment_strategy_witness:
  "list_all (\<lambda>(k, t). truthy t) [(''backends'', ''pkg.Backend'')] \<and>
   getMessageTypeForPath ''/app'' [(''backends'', ''pkg.Backend'')] ''/app/backends/node-1''
     = Some ''pkg.Backend'' \<and>
   getMessageTypeForPath ''/app'' [(''backends'', ''pkg.Backend'')] ''/other/backends/node-1''
     = None"
proof -
  have h: "list_all (\<lambda>(k, t). truthy t) [(''backends'', ''pkg.Backend'')]"
    by (simp add: truthy_def)
  have a: "segment_resolution_spec ''/app'' [(''backends'', ''pkg.Backend'')] ''/app/backends/node-1''
      = Some ''pkg.Backend''"
    by (simp add: segment_resolution_spec_def strip_root_spec_def first_segment_spec_def)
  have b: "segment_resolution_spec ''/app'' [(''backends'', ''pkg.Backend'')] ''/other/backends/node-1''
      = None"
    by (simp add: segment_resolution_spec_def strip_root_spec_def first_segment_spec_def)
  show ?thesis
    using h a b
      getMessageTypeForPath_segment_strategy[OF h, of "''/app''" "''/app/backends/node-1''"]
      getMessageTypeForPath_segment_strategy[OF h, of "''/app''" "''/other/backends/node-1''"]
    by simp
qed

text \<open>A deeper segment that is a key of the table does not matter.\<close>

lemma getMessageTypeForPath_deeper_segment_ignored:
  "getMessageTypeForPath ''/app'' [(''backends'', ''pkg.Backend'')] ''/app/other/backends'' = None"
  by (simp add: getMessageTypeForPath_def truthy_def startsWith_def slice_def mapGet_def)

subsection \<open>The client helper\<close>

text \<open>Where the first segment is not the name of a member of \<open>Object.prototype\<close>, or is a key
  of the table, the helper returns what the server's resolver returns.\<close>

lemma getAutoTypeForPath_agrees:
  assumes "list_all (\<lambda>(k, t). truthy t) tbl"
    and "\<And>seg. first_segment_spec (strip_root_spec rootPath p) = Some seg \<Longrightarrow>
           seg \<in> set object_prototype_members \<Longrightarrow> seg \<in> fst ` set tbl"
  shows "getAutoTypeForPath p rootPath tbl =
           (case segment_resolution_spec rootPath tbl p of None \<Rightarrow> NoType | Some t \<Rightarrow> TypeName t)"
proof -
  have strip: "(if truthy rootPath \<and> startsWith p rootPath then slice p (length rootPath) else p)
      = strip_root_spec rootPath p"
    by (auto simp: strip_root_spec_def startsWith_prefix slice_def truthy_def)
  have nonempty: "map_of tbl s = Some t \<Longrightarrow> truthy t" for s t
    using assms(1) by (auto simp: list_all_iff dest!: map_of_SomeD)
  show ?thesis
  proof (cases "first_segment_spec (strip_root_spec rootPath p)")
    case None
    then have "filter truthy (split CHR ''/'' (strip_root_spec rootPath p)) = []"
      using segments_first_segment[of "strip_root_spec rootPath p"] by (auto split: list.splits)
    with None show ?thesis
      by (simp add: getAutoTypeForPath_def segment_resolution_spec_def strip Let_def)
  next
    case (Some seg)
    then obtain rest where segs: "filter truthy (split CHR ''/'' (strip_root_spec rootPath p)) = seg # rest"
      using segments_first_segment[of "strip_root_spec rootPath p"] by (auto split: list.splits)
    show ?thesis
    proof (cases "map_of tbl seg")
      case None
      then have "seg \<notin> fst ` set tbl" by (simp add: map_of_eq_None_iff)
      with assms(2)[OF Some] have "seg \<notin> set object_prototype_members" by blast
      with None Some segs show ?thesis
        by (cases tbl)
          (simp_all add: getAutoTypeForPath_def segment_resolution_spec_def strip Let_def
            readProperty_or_null_def)
    next
      case (Some t)
      with nonempty[OF Some] \<open>first_segment_spec (strip_root_spec rootPath p) = Some seg\<close> segs
      show ?thesis
        by (cases tbl)
          (simp_all add: getAutoTypeForPath_def segment_resolution_spec_def strip Let_def
            readProperty_or_null_def)
    qed
  qed
qed

text \<open>
  C4 at the client helper, with root prefix \<open>/app\<close>, table \<open>{"backends": "pkg.Backend"}\<close> and
  path \<open>/app/constructor/x\<close>: the first segment \<open>constructor\<close> is not a key of the table, the
  claim (and the server's resolver) give none, but the lookup in the plain object finds the
  inherited \<open>Object.prototype.constructor\<close> and the helper returns it.
\<close>

theorem getAutoTypeForPath_inherited_member:
  "first_segment_spec (strip_root_spec ''/app'' ''/app/constructor/x'') = Some ''constructor'' \<and>
   map_of [(''backends'', ''pkg.Backend'')] ''constructor'' = None \<and>
   segment_resolution_spec ''/app'' [(''backends'', ''pkg.Backend'')] ''/app/constructor/x'' = None \<and>
   getAutoTypeForPath ''/app/constructor/x'' ''/app'' [(''backends'', ''pkg.Backend'')]
     = InheritedMember ''constructor''"
  by (simp add: first_segment_spec_def strip_root_spec_def segment_resolution_spec_def
      getAutoTypeForPath_def readProperty_or_null_def object_prototype_members_def
      truthy_def startsWith_def slice_def)

lemma getMessageTypeForPath_not_a_key:
  "getMessageTypeForPath ''/app'' [(''backends'', ''pkg.Backend'')] ''/app/constructor/x'' = None"
  by (simp add: getMessageTypeForPath_def truthy_def startsWith_def slice_def mapGet_def)

lemma getAutoTypeForPath_example:
  "getAutoTypeForPath ''/app/backends/node-1'' ''/app'' [(''backends'', ''pkg.Backend'')]
     = TypeName ''pkg.Backend''"
  "getAutoTypeForPath ''/other/backends/node-1'' ''/app'' [(''backends'', ''pkg.Backend'')] = NoType"
  by (simp_all add: getAutoTypeForPath_def readProperty_or_null_def object_prototype_members_def
      truthy_def startsWith_def slice_def)

section \<open>Prefix strategy\<close>

text \<open>
  C5 as stated fails on the empty path: the guard \<open>!typeName && path\<close> skips the scan when
  the path is the empty string, although an entry with the empty prefix is a prefix of it.
\<close>

theorem determineTypeName_empty_path_counterexample:
  "startsWith [] (path \<lparr>path = [], type = ''T''\<rparr>) \<and>
   determineTypeName [\<lparr>path = [], type = ''T''\<rparr>] None (Some []) = None"
  by (simp add: determineTypeName_def startsWith_def truthy_opt_def truthy_def)

text \<open>
  C5, amended.  For a non-empty path and no explicit message type, the result is the type of
  the first entry, in list order, whose prefix the path starts with, whether or not a later
  entry has a longer matching prefix; when no entry matches, no type is determined.
\<close>

theorem determineTypeName_first_match:
  assumes "p \<noteq> []" and "\<not> truthy_opt messageType"
  shows "(\<exists>i < length ms. prefix (path (ms ! i)) p \<and> (\<forall>j < i. \<not> prefix (path (ms ! j)) p) \<and>
            determineTypeName ms messageType (Some p) = Some (type (ms ! i)))
         \<or> ((\<forall>m \<in> set ms. \<not> prefix (path m) p) \<and>
            determineTypeName ms messageType (Some p) = messageType)"
proof (cases "find (\<lambda>m. startsWith p (path m)) ms")
  case None
  then have "\<forall>m \<in> set ms. \<not> prefix (path m) p"
    by (simp add: find_None_iff startsWith_prefix)
  with None assms show ?thesis
    by (simp add: determineTypeName_def truthy_def)
next
  case (Some m)
  then obtain i where "i < length ms" "startsWith p (path (ms ! i))" "m = ms ! i"
    "\<forall>j < i. \<not> startsWith p (path (ms ! j))"
    unfolding find_Some_iff by blast
  with Some assms show ?thesis
    by (auto simp: determineTypeName_def truthy_def startsWith_prefix)
qed

theorem determineTypeName_first_match_witness:
  "''/config/users/user1'' \<noteq> [] \<and> \<not> truthy_opt None \<and>
   determineTypeName [\<lparr>path = ''/config/users'', type = ''UserConfig''\<rparr>] None
      (Some ''/config/users/user1'') = Some ''UserConfig''"
proof -
  have h1: "''/config/users/user1'' \<noteq> []" by simp
  have h2: "\<not> truthy_opt None" by (simp add: truthy_opt_def)
  have np: "\<not> (\<forall>m \<in> set [\<lparr>path = ''/config/users'', type = ''UserConfig''\<rparr>].
      \<not> prefix (path m) ''/config/users/user1'')"
    by simp
  show ?thesis
    using h1 h2 np
      determineTypeName_first_match[OF h1 h2, of "[\<lparr>path = ''/config/users'', type = ''UserConfig''\<rparr>]"]
    by auto
qed

lemma determineTypeName_no_match:
  "determineTypeName [\<lparr>path = ''/config/users'', type = ''UserConfig''\<rparr>] None
      (Some ''/config/other'') = None"
  by (simp add: determineTypeName_def startsWith_def truthy_opt_def truthy_def)

lemma determineTypeName_first_not_longest:
  "determineTypeName [\<lparr>path = ''/a'', type = ''T1''\<rparr>, \<lparr>path = ''/a/b'', type = ''T2''\<rparr>] None
      (Some ''/a/b/c'') = Some ''T1''"
  by (simp add: determineTypeName_def startsWith_def truthy_opt_def truthy_def)

text \<open>For the empty path the scan is skipped whatever the list holds, and with an explicit
  message type no scan takes place.\<close>

lemma determineTypeName_empty_path: "determineTypeName ms messageType (Some []) = messageType"
  by (simp add: determineTypeName_def truthy_def)

lemma determineTypeName_explicit:
  "truthy_opt messageType \<Longrightarrow> determineTypeName ms messageType reqPath = messageType"
  by (simp add: determineTypeName_def)

section \<open>Import-path resolver\<close>

lemma first_applicable_Some: "\<exists>r. first_applicable env origin target = Some r"
  by (simp add: first_applicable_def import_rules_def)

text \<open>
  C6.  For every origin and import target the resolver returns what the first applicable
  rule of the six-rule precedence list yields: absolute target unchanged; bundled-library
  prefix against the library's install directory; auxiliary prefix against the auxiliary
  directory; configured import prefix stripped and resolved against the schema directory;
  a non-root import relative to the importing file's directory; otherwise the schema
  directory.
\<close>

theorem resolvePath_precedence:
  "\<exists>r. first_applicable env origin target = Some r \<and>
       resolvePath env origin target = rule_result env origin target r"
  by (simp add: first_applicable_def import_rules_def resolvePath_def startsWith_prefix
      truthy_def slice_def)

section \<open>Rounding integers to doubles\<close>

lemma bitlen_bounds: "0 < n \<Longrightarrow> 2 ^ (bitlen n - 1) \<le> n \<and> n < 2 ^ bitlen n"
proof (induction n rule: bitlen.induct)
  case (1 n)
  show ?case
  proof (cases "n div 2 = 0")
    case True
    with "1.prems" have "n = 1" by presburger
    then show ?thesis by (simp add: bitlen.simps)
  next
    case False
    then have pos: "0 < n div 2" by simp
    from "1.IH"[OF _ pos] "1.prems"
    have ih: "2 ^ (bitlen (n div 2) - 1) \<le> n div 2" "n div 2 < 2 ^ bitlen (n div 2)" by auto
    have bl: "bitlen n = Suc (bitlen (n div 2))" using "1.prems" by (subst bitlen.simps) simp
    have gt: "0 < bitlen (n div 2)" using pos by (subst bitlen.simps) simp
    then obtain m where m: "bitlen (n div 2) = Suc m" by (cases "bitlen (n div 2)") auto
    show ?thesis using ih unfolding bl m by auto
  qed
qed

lemma bitlen_1: "bitlen (Suc 0) = Suc 0"
  by (simp add: bitlen.simps)

lemma bitlen_le: "n < 2 ^ k \<Longrightarrow> bitlen n \<le> k"
proof (rule ccontr)
  assume a: "n < 2 ^ k" "\<not> bitlen n \<le> k"
  then have "0 < n" by (cases "n = 0") (auto simp: bitlen.simps)
  from bitlen_bounds[OF this] have lo: "2 ^ (bitlen n - 1) \<le> n" by simp
  from a have "k \<le> bitlen n - 1" by simp
  then have p: "(2::nat) ^ k \<le> 2 ^ (bitlen n - 1)" by (rule power_increasing) simp
  from order_trans[OF p lo] a(1) show False by simp
qed

lemma bitlen_ge: "2 ^ k \<le> n \<Longrightarrow> k < bitlen n"
proof (rule ccontr)
  assume a: "2 ^ k \<le> n" "\<not> k < bitlen n"
  then have "0 < n" by (cases "n = 0") auto
  from bitlen_bounds[OF this] have hi: "n < 2 ^ bitlen n" by simp
  from a have p: "(2::nat) ^ bitlen n \<le> 2 ^ k" by (intro power_increasing) auto
  from order_trans[OF p a(1)] hi show False by simp
qed

lemma round_half_even_int: "round_half_even (of_int n) = n"
  by (simp add: round_half_even_def)

lemma round_half_even_ge:
  assumes "of_int n \<le> x"
  shows "n \<le> round_half_even x"
proof -
  from assms have "n \<le> \<lfloor>x\<rfloor>" by (simp add: le_floor_iff)
  moreover have "\<lfloor>x\<rfloor> \<le> round_half_even x" by (simp add: round_half_even_def Let_def)
  ultimately show ?thesis by (rule order_trans)
qed

lemma toDoubleAbs_nat_small:
  assumes "0 < m" "m < 2 ^ 53"
  shows "toDoubleAbs (of_nat m) = Some (of_nat m)"
proof -
  define e0 where "e0 = int (bitlen m) - 1"
  have q: "quotient_of (of_nat m) = (int m, 1)"
    using quotient_of_int[of "int m"] by simp
  from bitlen_bounds[OF assms(1)] have lo: "2 ^ (bitlen m - 1) \<le> m" by simp
  have bpos: "0 < bitlen m" using assms(1) by (subst bitlen.simps) simp
  have e0nn: "0 \<le> e0" using bpos by (simp add: e0_def)
  have nat_e0: "nat e0 = bitlen m - 1" using bpos by (simp add: e0_def)
  have ple: "pow2 e0 \<le> of_nat m"
  proof -
    have "(2::rat) ^ (bitlen m - 1) = of_nat (2 ^ (bitlen m - 1))" by simp
    also have "\<dots> \<le> of_nat m" using lo by (simp only: of_nat_le_iff)
    finally show ?thesis using e0nn by (simp add: pow2_def nat_e0)
  qed
  have e0le: "e0 \<le> 52" using bitlen_le[OF assms(2)] by (simp add: e0_def)
  define j where "j = nat (52 - e0)"
  have k: "max e0 (- 1022) - 52 = - int j" using e0nn e0le by (simp add: j_def)
  have pk: "pow2 (- int j) = 1 / 2 ^ j" by (simp add: pow2_def)
  have x: "(of_nat m :: rat) / pow2 (- int j) = of_int (int m * 2 ^ j)" by (simp add: pk)
  have r: "of_int (round_half_even (of_nat m / pow2 (- int j))) * pow2 (- int j) = (of_nat m :: rat)"
    unfolding x round_half_even_int by (simp add: pk)
  have lt: "\<not> pow2 1024 \<le> (of_nat m :: rat)"
  proof -
    have "(of_nat m :: rat) < of_nat (2 ^ 53)" using assms(2) by (simp only: of_nat_less_iff)
    also have "\<dots> \<le> 2 ^ 1024" by simp
    finally show ?thesis by (simp add: pow2_def)
  qed
  show ?thesis
    unfolding toDoubleAbs_def q
    using ple lt by (simp add: bitlen_1 e0_def[symmetric] k r Let_def)
qed

lemma toDoubleAbs_nat_large:
  assumes "2 ^ 53 \<le> m"
  shows "case toDoubleAbs (of_nat m) of None \<Rightarrow> True | Some r \<Rightarrow> 2 ^ 53 \<le> r"
proof -
  have mpos: "0 < m" using assms by (cases "m = 0") auto
  define e0 where "e0 = int (bitlen m) - 1"
  have q: "quotient_of (of_nat m) = (int m, 1)"
    using quotient_of_int[of "int m"] by simp
  from bitlen_bounds[OF mpos] have lo: "2 ^ (bitlen m - 1) \<le> m" by simp
  have b54: "53 < bitlen m" using bitlen_ge[OF assms] .
  have e0ge: "53 \<le> e0" using b54 by (simp add: e0_def)
  have nat_e0: "nat e0 = bitlen m - 1" using b54 by (simp add: e0_def)
  have ple: "pow2 e0 \<le> of_nat m"
  proof -
    have "(2::rat) ^ (bitlen m - 1) = of_nat (2 ^ (bitlen m - 1))" by simp
    also have "\<dots> \<le> of_nat m" using lo by (simp only: of_nat_le_iff)
    finally show ?thesis using e0ge by (simp add: pow2_def nat_e0)
  qed
  define j where "j = nat (e0 - 52)"
  have k: "max e0 (- 1022) - 52 = int j" using e0ge by (simp add: j_def)
  have pk: "pow2 (int j) = 2 ^ j" by (simp add: pow2_def)
  have "nat e0 = 52 + j" using e0ge by (simp add: j_def)
  then have split: "(2::rat) ^ nat e0 = 2 ^ 52 * 2 ^ j" by (simp only: power_add)
  have "of_int (2 ^ 52) \<le> (of_nat m :: rat) / 2 ^ j"
  proof -
    have "(2::rat) ^ 52 * 2 ^ j \<le> of_nat m" using ple e0ge by (simp add: pow2_def split)
    then show ?thesis by (simp add: pos_le_divide_eq)
  qed
  from round_half_even_ge[OF this] have rh: "2 ^ 52 \<le> round_half_even (of_nat m / 2 ^ j)" .
  have "(2::rat) ^ 53 \<le> 2 ^ 52 * 2 ^ j"
  proof -
    have "1 \<le> j" using e0ge by (simp add: j_def)
    then have "(2::rat) ^ 1 \<le> 2 ^ j" by (intro power_increasing) auto
    then show ?thesis by simp
  qed
  also have "\<dots> \<le> of_int (round_half_even (of_nat m / 2 ^ j)) * 2 ^ j"
  proof -
    have "(2::rat) ^ 52 \<le> of_int (round_half_even (of_nat m / 2 ^ j))"
      using rh by (metis of_int_le_iff of_int_numeral of_int_power)
    then show ?thesis by (simp add: mult_right_mono)
  qed
  finally have big: "(2::rat) ^ 53 \<le> of_int (round_half_even (of_nat m / 2 ^ j)) * 2 ^ j" .
  show ?thesis
    unfolding toDoubleAbs_def q
    using ple big by (simp add: bitlen_1 e0_def[symmetric] k pk Let_def)
qed

section \<open>Encode normalization\<close>

lemma toDouble_nat_small:
  assumes "m < 2 ^ 53"
  shows "toDouble neg (of_nat m) = signed_int neg m"
proof (cases "m = 0")
  case True
  then show ?thesis by (simp add: toDouble_def signed_int_def)
next
  case False
  then have "0 < m" by simp
  from toDoubleAbs_nat_small[OF this assms] False show ?thesis
    by (simp add: toDouble_def signed_int_def)
qed

lemma isSafeInteger_signed_int: "m < 2 ^ 53 \<Longrightarrow> isSafeInteger (signed_int neg m)"
proof -
  assume a: "m < 2 ^ 53"
  then have "m \<le> 2 ^ 53 - 1" by simp
  then have "(of_nat m :: rat) \<le> of_nat (2 ^ 53 - 1)" by (simp only: of_nat_le_iff)
  then have "(of_nat m :: rat) \<le> 2 ^ 53 - 1" by simp
  then show ?thesis by (simp add: isSafeInteger_def signed_int_def)
qed

lemma toDouble_nat_large:
  assumes "2 ^ 53 \<le> m"
  shows "\<not> isSafeInteger (toDouble neg (of_nat m))"
proof -
  have "m \<noteq> 0" using assms by auto
  with toDoubleAbs_nat_large[OF assms] show ?thesis
    by (auto simp: toDouble_def isSafeInteger_def split: option.splits)
qed

lemma toDouble_not_NaN: "toDouble neg q \<noteq> NaN"
  by (simp add: toDouble_def split: option.splits)

lemma strip_minus_cases:
  "strip_minus s = (True, r) \<longleftrightarrow> s = CHR ''-'' # r"
  "strip_minus s = (False, r) \<longleftrightarrow> s = r \<and> (s = [] \<or> hd s \<noteq> CHR ''-'')"
  by (auto simp: strip_minus_def split: list.splits)

lemma is_digit_not_minus: "is_digit c \<Longrightarrow> c \<noteq> CHR ''-''"
  by (auto simp: is_digit_def)

lemma is_digit_not_dot: "is_digit c \<Longrightarrow> c \<noteq> CHR ''.''"
  by (auto simp: is_digit_def)


lemma span_digits:
  assumes "list_all is_digit a" "\<not> is_digit c"
  shows "takeWhile is_digit (a @ c # f) = a" "dropWhile is_digit (a @ c # f) = c # f"
  using assms by (induction a) auto

lemma matches_decimal_iff:
  "matches_decimal s \<longleftrightarrow>
     (\<exists>a f. all_digits a \<and> all_digits f \<and> (s = a @ CHR ''.'' # f \<or> s = CHR ''-'' # a @ CHR ''.'' # f))"
proof
  assume m: "matches_decimal s"
  define r where "r = snd (strip_minus s)"
  define a where "a = takeWhile is_digit r"
  define b where "b = dropWhile is_digit r"
  from m obtain f where f: "a \<noteq> []" "b = CHR ''.'' # f" "all_digits f"
    by (auto simp: matches_decimal_def Let_def r_def a_def b_def split: list.splits)
  have ra: "r = a @ CHR ''.'' # f" using f(2) unfolding a_def b_def by (metis takeWhile_dropWhile_id)
  have da: "all_digits a" using f(1) by (auto simp: all_digits_def a_def list_all_iff dest: set_takeWhileD)
  have "s = r \<or> s = CHR ''-'' # r"
    by (auto simp: r_def strip_minus_def split: list.splits)
  with ra da f(3) show "\<exists>a f. all_digits a \<and> all_digits f \<and> (s = a @ CHR ''.'' # f \<or> s = CHR ''-'' # a @ CHR ''.'' # f)"
    by auto
next
  assume "\<exists>a f. all_digits a \<and> all_digits f \<and> (s = a @ CHR ''.'' # f \<or> s = CHR ''-'' # a @ CHR ''.'' # f)"
  then obtain a f where h: "all_digits a" "all_digits f" "s = a @ CHR ''.'' # f \<or> s = CHR ''-'' # a @ CHR ''.'' # f"
    by blast
  from h(1) have hd: "hd a \<noteq> CHR ''-''" "a \<noteq> []"
    by (cases a; auto simp: all_digits_def dest: is_digit_not_minus)+
  have r: "snd (strip_minus s) = a @ CHR ''.'' # f"
    using h(3) hd by (cases a) (auto simp: strip_minus_def)
  have nd: "\<not> is_digit CHR ''.''" by (simp add: is_digit_def)
  from h(1) have la: "list_all is_digit a" by (simp add: all_digits_def)
  show "matches_decimal s"
    unfolding matches_decimal_def Let_def r span_digits[OF la nd]
    using hd h(2) by simp
qed

lemma Number_alt:
  "Number s = toDouble (fst (strip_minus s)) (of_nat (digits_val (snd (strip_minus s))))"
  by (simp add: Number_def case_prod_beta)

text \<open>
  On a string the normalization returns: for a string of the integer pattern, the number
  written when its magnitude is at most \<open>2^53 - 1\<close> (the safe-integer range), and the
  string itself otherwise; for a string of the decimal pattern, the double nearest to the
  fraction written; for every other string, the string itself.
\<close>

lemma convertStringNumbers_string_leaf:
  "convertStringNumbers (JStr s) = normalized_string s"
proof (cases "digits_val (snd (strip_minus s)) \<le> 2 ^ 53 - 1")
  case True
  then have lt: "digits_val (snd (strip_minus s)) < 2 ^ 53" by simp
  show ?thesis
    using True toDouble_nat_small[OF lt] isSafeInteger_signed_int[OF lt]
    by (simp add: Number_alt Let_def normalized_string_def)
next
  case False
  then have ge: "2 ^ 53 \<le> digits_val (snd (strip_minus s))" by simp
  show ?thesis
    using False toDouble_nat_large[OF ge]
    by (simp add: Number_alt Let_def normalized_string_def)
qed

lemma convertStringNumbers_large_integer_string:
  "convertStringNumbers (JStr ''12345678901234567890'') = JStr ''12345678901234567890''"
proof -
  have m: "matches_integer ''12345678901234567890''"
    by (simp add: matches_integer_def strip_minus_def all_digits_def is_digit_def)
  have v: "digits_val (snd (strip_minus ''12345678901234567890'')) = 12345678901234567890"
    by (simp add: digits_val_def digit_val_def strip_minus_def)
  have "\<not> isSafeInteger (Number ''12345678901234567890'')"
    unfolding Number_alt v using toDouble_nat_large[of 12345678901234567890] by simp
  with m show ?thesis by (simp add: Let_def)
qed

lemma parseFloat_not_NaN: "parseFloat s \<noteq> NaN"
  by (simp add: parseFloat_def case_prod_beta Let_def toDouble_not_NaN)

subsection \<open>Objects and arrays\<close>

lemma assignOwn_fresh: "k \<notin> fst ` set ps \<Longrightarrow> assignOwn ps k v = ps @ [(k, v)]"
  by (induction ps) auto

lemma assignAll_simps:
  "assignAll f acc [] = acc"
  "assignAll f acc ((k, v) # es) = assignAll f (setProperty acc k (f v)) es"
  by (simp_all add: assignAll_def)

text \<open>Without a key \<open>__proto__\<close> the loop appends the normalized properties one by one and
  leaves the prototype alone.\<close>

lemma assignAll_fresh:
  assumes "distinct (map fst es)" "''__proto__'' \<notin> fst ` set es"
    "fst ` set (snd acc) \<inter> fst ` set es = {}"
  shows "assignAll f acc es = (fst acc, snd acc @ map (\<lambda>(k, v). (k, f v)) es)"
  using assms
proof (induction es arbitrary: acc)
  case Nil
  then show ?case by (simp add: assignAll_simps)
next
  case (Cons e es)
  obtain k v where e: "e = (k, v)" by (cases e)
  have k: "k \<noteq> ''__proto__''" "k \<notin> fst ` set (snd acc)" "k \<notin> fst ` set es"
    using Cons.prems by (auto simp: e)
  have stp: "setProperty acc k (f v) = (fst acc, snd acc @ [(k, f v)])"
    using k by (simp add: setProperty_def assignOwn_fresh)
  have "assignAll f (fst acc, snd acc @ [(k, f v)]) es
      = (fst (fst acc, snd acc @ [(k, f v)]),
         snd (fst acc, snd acc @ [(k, f v)]) @ map (\<lambda>(k, v). (k, f v)) es)"
    using Cons.prems k by (intro Cons.IH) (auto simp: e)
  then show ?case by (simp add: e assignAll_simps stp)
qed

lemma convertStringNumbers_JObj:
  "convertStringNumbers (JObj p es) =
     JObj (fst (assignAll convertStringNumbers (None, []) es))
          (snd (assignAll convertStringNumbers (None, []) es))"
  by (simp add: assignAll_def Let_def)

lemma convertStringNumbers_object:
  assumes "distinct (map fst es)" "''__proto__'' \<notin> fst ` set es"
  shows "convertStringNumbers (JObj p es)
     = JObj None (map (\<lambda>(k, v). (k, convertStringNumbers v)) es)"
  using assignAll_fresh[OF assms, of "(None, [])" convertStringNumbers]
  by (simp add: convertStringNumbers_JObj del: convertStringNumbers.simps)

lemma well_formed_child:
  "well_formed x \<Longrightarrow> child x s = Some c \<Longrightarrow> well_formed c"
proof (cases x)
  case (JArr xs)
  assume "well_formed x" "child x s = Some c"
  with JArr show ?thesis
    by (cases s) (auto simp: list_all_iff split: if_splits)
next
  case (JObj p es)
  assume "well_formed x" "child x s = Some c"
  with JObj show ?thesis
    by (cases s) (auto simp: list_all_iff dest!: map_of_SomeD)
qed (cases s; simp)+

lemma child_convertStringNumbers:
  assumes "well_formed x"
  shows "child (convertStringNumbers x) s = map_option convertStringNumbers (child x s)"
proof (cases x)
  case (JArr xs)
  then show ?thesis by (cases s) auto
next
  case (JObj p es)
  from assms JObj have d: "distinct (map fst es)" "''__proto__'' \<notin> fst ` set es" by auto
  show ?thesis
    unfolding JObj convertStringNumbers_object[OF d]
    by (cases s) (simp_all add: map_of_map)
next
  case (JStr str)
  then show ?thesis by (cases s) (auto simp: Let_def)
qed (cases s; simp)+

text \<open>
  In a value without \<open>__proto__\<close> keys the normalization reaches every position: what is
  found at a position afterwards is the normalization of what was there before.  For a
  string leaf that is the string policy above.
\<close>

lemma value_at_convertStringNumbers:
  "well_formed x \<Longrightarrow> value_at x p = Some y \<Longrightarrow>
     value_at (convertStringNumbers x) p = Some (convertStringNumbers y)"
proof (induction p arbitrary: x)
  case Nil
  then show ?case by simp
next
  case (Cons s p)
  from Cons.prems(2) obtain c where c: "child x s = Some c" "value_at c p = Some y"
    by (auto split: option.splits)
  from Cons.IH[OF well_formed_child[OF Cons.prems(1) c(1)] c(2)] c(1)
  show ?case by (simp add: child_convertStringNumbers[OF Cons.prems(1)])
qed

lemma convertStringNumbers_string_leaves:
  "well_formed x \<Longrightarrow> value_at x p = Some (JStr s) \<Longrightarrow>
     value_at (convertStringNumbers x) p = Some (normalized_string s)"
  using value_at_convertStringNumbers[of x p "JStr s"]
  by (simp only: convertStringNumbers_string_leaf)

subsection \<open>Idempotence and shape\<close>

lemma convertStringNumbers_idempotent:
  "well_formed x \<Longrightarrow> convertStringNumbers (convertStringNumbers x) = convertStringNumbers x"
proof (induction x rule: json.induct)
  case (JStr s)
  show ?case by (simp add: Let_def)
next
  case (JArr xs)
  have "convertStringNumbers (convertStringNumbers v) = convertStringNumbers v" if "v \<in> set xs" for v
    using JArr.IH[OF that] JArr.prems that by (simp add: list_all_iff)
  then show ?case by simp
next
  case (JObj p es)
  from JObj.prems have d: "distinct (map fst es)" "''__proto__'' \<notin> fst ` set es"
    and w: "\<And>k v. (k, v) \<in> set es \<Longrightarrow> well_formed v"
    by (auto simp: list_all_iff)
  let ?fs = "map (\<lambda>(k, v). (k, convertStringNumbers v)) es"
  have keys: "map fst ?fs = map fst es" by (induction es) auto
  have d1: "distinct (map fst ?fs)" unfolding keys by (rule d(1))
  have "fst ` set ?fs = fst ` set es" by force
  with d(2) have d2: "''__proto__'' \<notin> fst ` set ?fs" by simp
  have idem: "convertStringNumbers (convertStringNumbers v) = convertStringNumbers v"
    if "(k, v) \<in> set es" for k v
  proof -
    have "v \<in> Basic_BNFs.snds (k, v)" by (simp add: snds.simps)
    from JObj.IH(2)[OF that this w[OF that]] show ?thesis .
  qed
  have "map (\<lambda>(k, v). (k, convertStringNumbers v)) ?fs
      = map (\<lambda>(k, v). (k, convertStringNumbers (convertStringNumbers v))) es"
    by (simp add: case_prod_unfold)
  also have "\<dots> = ?fs"
    by (rule map_cong[OF refl]) (auto simp: idem)
  finally have again: "map (\<lambda>(k, v). (k, convertStringNumbers v)) ?fs = ?fs" .
  have "convertStringNumbers (convertStringNumbers (JObj p es)) = convertStringNumbers (JObj None ?fs)"
    by (simp only: convertStringNumbers_object[OF d])
  also have "\<dots> = JObj None (map (\<lambda>(k, v). (k, convertStringNumbers v)) ?fs)"
    by (rule convertStringNumbers_object[OF d1 d2])
  also have "\<dots> = JObj None ?fs" by (simp only: again)
  also have "\<dots> = convertStringNumbers (JObj p es)"
    by (simp only: convertStringNumbers_object[OF d])
  finally show ?case .
qed simp_all

lemma convertStringNumbers_shape:
  "well_formed x \<Longrightarrow> shape_preserved x (convertStringNumbers x)"
proof (induction x rule: json.induct)
  case (JStr s)
  show ?case by (auto simp: Let_def intro: shape_preserved.intros)
next
  case (JArr xs)
  then have "list_all2 shape_preserved xs (map convertStringNumbers xs)"
    by (auto simp: list_all2_conv_all_nth list_all_iff)
  then show ?case by (auto intro: shape_preserved.intros)
next
  case (JObj p es)
  from JObj.prems have d: "distinct (map fst es)" "''__proto__'' \<notin> fst ` set es"
    and p: "p = None"
    and w: "\<And>k v. (k, v) \<in> set es \<Longrightarrow> well_formed v"
    by (auto simp: list_all_iff)
  let ?fs = "map (\<lambda>(k, v). (k, convertStringNumbers v)) es"
  have keys: "map fst es = map fst ?fs" by (induction es) auto
  have "list_all2 shape_preserved (map snd es) (map snd ?fs)"
    unfolding list_all2_conv_all_nth
  proof (intro conjI allI impI)
    show "length (map snd es) = length (map snd ?fs)" by simp
    fix i assume "i < length (map snd es)"
    then have i: "i < length es" by simp
    obtain k v where kv: "es ! i = (k, v)" by (cases "es ! i")
    with i have mem: "(k, v) \<in> set es" by (metis nth_mem)
    have "v \<in> Basic_BNFs.snds (k, v)" by (simp add: snds.simps)
    from JObj.IH(2)[OF mem this w[OF mem]] have "shape_preserved v (convertStringNumbers v)" .
    with i kv show "shape_preserved (map snd es ! i) (map snd ?fs ! i)" by simp
  qed
  with keys have "shape_preserved (JObj None es) (JObj None ?fs)" by (rule shape_preserved.intros)
  then show ?case by (simp only: p convertStringNumbers_object[OF d])
qed (auto intro: shape_preserved.intros)

text \<open>
  C10 at the input \<open>{"__proto__": "1"}\<close>, which \<open>JSON.parse\<close> builds with \<open>__proto__\<close> as
  an own property: \<open>Object.entries\<close> lists the property, and the assignment
  \<open>result['__proto__'] = 1\<close> reaches the inherited setter and defines nothing, so the
  normalized object has no keys.  The key set of the input is not kept.
\<close>

theorem convertStringNumbers_proto_key_dropped:
  "convertStringNumbers (JObj None [(''__proto__'', JStr ''1'')]) = JObj None []"
  by (simp add: setProperty_def is_object_or_null_def Let_def)

text \<open>With an object under that key the prototype of the result is replaced; a second
  normalization reads the own properties only and returns a plain empty object, so on this
  input normalizing twice is not normalizing once.\<close>

lemma convertStringNumbers_proto_replaced:
  "convertStringNumbers (JObj None [(''__proto__'', JObj None [(''a'', JStr ''x'')])])
     = JObj (Some (JObj None [(''a'', JStr ''x'')])) []"
  "convertStringNumbers (JObj (Some (JObj None [(''a'', JStr ''x'')])) []) = JObj None []"
  by (simp_all add: setProperty_def is_object_or_null_def Let_def matches_integer_def
      matches_decimal_def strip_minus_def all_digits_def is_digit_def)

text \<open>
  C2 at the input \<open>{"__proto__": "abc"}\<close>: the string \<open>abc\<close> matches neither pattern and the
  claim has it passed through unchanged, but the value returned holds no string at all:
  the leaf is lost with its key.  The defect is the one of C10.
\<close>

theorem convertStringNumbers_proto_string_lost:
  "value_at (JObj None [(''__proto__'', JStr ''abc'')]) [Key ''__proto__''] = Some (JStr ''abc'') \<and>
   normalized_string ''abc'' = JStr ''abc'' \<and>
   convertStringNumbers (JObj None [(''__proto__'', JStr ''abc'')]) = JObj None [] \<and>
   value_at (convertStringNumbers (JObj None [(''__proto__'', JStr ''abc'')])) [Key ''__proto__'']
     = None"
  by (simp add: setProperty_def is_object_or_null_def Let_def normalized_string_def
      matches_integer_def matches_decimal_def strip_minus_def all_digits_def is_digit_def)

section \<open>Type extraction\<close>

lemma type_paths_entries_concat:
  "type_paths_entries es =
     concat (map (\<lambda>(name, v). (if kind v = KType then [[name]] else []) @ map ((#) name) (type_paths v)) es)"
  by (induction es) auto

lemma type_paths_entries_mem:
  "p \<in> set (type_paths_entries es) \<longleftrightarrow>
     (\<exists>name v. (name, v) \<in> set es \<and>
        ((kind v = KType \<and> p = [name]) \<or> (\<exists>p'. p' \<in> set (type_paths v) \<and> p = name # p')))"
  unfolding type_paths_entries_concat by (auto split: if_splits) 

lemma type_paths_nonempty: "p \<in> set (type_paths r) \<Longrightarrow> p \<noteq> []"
  by (cases r) (auto simp: type_paths_entries_mem)

lemma type_paths_leaf: "nested v = [] \<Longrightarrow> type_paths v = []"
  by (cases v) auto

lemma qualify_step:
  assumes "name \<noteq> []" "p' \<noteq> []"
  shows "qualify (qualify pfx [name]) p' = qualify pfx (name # p')"
proof -
  obtain m ms where p': "p' = m # ms" using assms(2) by (cases p') auto
  show ?thesis using assms(1) by (simp add: qualify_def p')
qed

lemma extract_eq:
  "wf_registry r \<Longrightarrow> extractTypes r pfx acc = acc @ map (qualify pfx) (type_paths r)"
  "list_all (\<lambda>e. fst e \<noteq> [] \<and> CHR ''.'' \<notin> set (fst e) \<and> wf_registry (snd e)) es \<Longrightarrow>
     extractEntries es pfx acc = acc @ map (qualify pfx) (type_paths_entries es)"
proof (induction r pfx acc and es pfx acc rule: extractTypes_extractEntries.induct)
  case (1 k entries pfx messageTypes)
  then show ?case by simp
next
  case (2 pfx messageTypes)
  show ?case by simp
next
  case (3 name v rest pfx messageTypes)
  define fullName where "fullName = (if truthy pfx then pfx @ ''.'' @ name else name)"
  define pushed where "pushed = (if kind v = KType then messageTypes @ [fullName] else messageTypes)"
  define visited where "visited = (if nested v \<noteq> [] then extractTypes v fullName pushed else pushed)"
  from "3.prems" have ne: "name \<noteq> []" and wv: "wf_registry v"
    and wrest: "list_all (\<lambda>e. fst e \<noteq> [] \<and> CHR ''.'' \<notin> set (fst e) \<and> wf_registry (snd e)) rest"
    by auto
  have fn: "fullName = qualify pfx [name]"
    by (simp add: fullName_def qualify_def truthy_def)
  have vis: "visited = pushed @ map (qualify fullName) (type_paths v)"
  proof (cases "nested v = []")
    case True
    then show ?thesis by (simp add: visited_def type_paths_leaf)
  next
    case False
    with "3.IH"(1)[OF fullName_def pushed_def False wv] show ?thesis by (simp add: visited_def)
  qed
  have q: "map (qualify (qualify pfx [name])) (type_paths v)
      = map (\<lambda>p. qualify pfx (name # p)) (type_paths v)"
    by (rule map_cong[OF refl]) (simp add: qualify_step[OF ne type_paths_nonempty])
  have "extractEntries ((name, v) # rest) pfx messageTypes = extractEntries rest pfx visited"
    by (simp add: Let_def fullName_def pushed_def visited_def)
  also have "\<dots> = visited @ map (qualify pfx) (type_paths_entries rest)"
    by (rule "3.IH"(2)[OF fullName_def pushed_def visited_def wrest])
  finally have L: "extractEntries ((name, v) # rest) pfx messageTypes
      = visited @ map (qualify pfx) (type_paths_entries rest)" .
  have R: "messageTypes @ map (qualify pfx) (type_paths_entries ((name, v) # rest))
      = visited @ map (qualify pfx) (type_paths_entries rest)"
    by (simp add: vis q pushed_def fn o_def)
  show ?case unfolding L R ..
qed

lemma qualify_Nil: "qualify [] p = dotted p"
  by (simp add: qualify_def)

lemma extractTypes_eq: "wf_registry r \<Longrightarrow> extractTypes r [] [] = map dotted (type_paths r)"
  using extract_eq(1)[of r "[]" "[]"] by (simp add: qualify_Nil[abs_def])


lemma wf_registry_child:
  assumes "wf_registry (ReflectionObject k es)" "(name, v) \<in> set es"
  shows "name \<noteq> []" "CHR ''.'' \<notin> set name" "wf_registry v" "map_of es name = Some v"
  using assms by (auto simp: list_all_iff)

lemma wf_registry_has_children:
  "wf_registry v \<Longrightarrow> nested v \<noteq> [] \<Longrightarrow> is_namespace v"
  by (cases v) (auto simp: is_namespace_def)

lemma type_paths_names:
  "wf_registry r \<Longrightarrow> p \<in> set (type_paths r) \<Longrightarrow> n \<in> set p \<Longrightarrow> CHR ''.'' \<notin> set n"
proof (induction r arbitrary: p rule: reflection.induct)
  case (ReflectionObject k es)
  from ReflectionObject.prems(2) obtain name v where
    mem: "(name, v) \<in> set es" and
    p: "(kind v = KType \<and> p = [name]) \<or> (\<exists>p'. p' \<in> set (type_paths v) \<and> p = name # p')"
    by (auto simp: type_paths_entries_mem)
  note c = wf_registry_child[OF ReflectionObject.prems(1) mem]
  from p show ?case
  proof
    assume "kind v = KType \<and> p = [name]"
    with ReflectionObject.prems(3) c(2) show ?thesis by simp
  next
    assume "\<exists>p'. p' \<in> set (type_paths v) \<and> p = name # p'"
    then obtain p' where p': "p' \<in> set (type_paths v)" "p = name # p'" by blast
    have "v \<in> Basic_BNFs.snds (name, v)" by (simp add: snds.simps)
    from ReflectionObject.IH[OF mem this c(3) p'(1)] ReflectionObject.prems(3) c(2) p'(2)
    show ?thesis by auto
  qed
qed

lemma type_paths_entries_hd:
  "p \<in> set (type_paths_entries es) \<Longrightarrow> p \<noteq> [] \<and> hd p \<in> fst ` set es"
  by (force simp: type_paths_entries_mem)

lemma distinct_type_paths_entries:
  assumes "distinct (map fst es)" "\<And>name v. (name, v) \<in> set es \<Longrightarrow> distinct (type_paths v)"
  shows "distinct (type_paths_entries es)"
  using assms
proof (induction es)
  case Nil
  show ?case by simp
next
  case (Cons e es)
  obtain name v where e: "e = (name, v)" by (cases e)
  have rest: "distinct (type_paths_entries es)"
    using Cons by auto
  have dv: "distinct (type_paths v)" using Cons.prems(2)[of name v] by (simp add: e)
  have b: "distinct (map ((#) name) (type_paths v))"
    using dv by (simp add: distinct_map)
  have ab: "[name] \<notin> set (map ((#) name) (type_paths v))"
    using type_paths_nonempty[of _ v] by auto
  have c: "p \<in> set (type_paths_entries es) \<Longrightarrow> hd p \<noteq> name" for p
    using type_paths_entries_hd[of p es] Cons.prems(1) by (auto simp: e)
  have ac: "[name] \<notin> set (type_paths_entries es)" using c[of "[name]"] by auto
  have bc: "set (map ((#) name) (type_paths v)) \<inter> set (type_paths_entries es) = {}"
    using c by fastforce
  show ?case using rest b ab ac bc by (auto simp: e)
qed

lemma distinct_type_paths: "wf_registry r \<Longrightarrow> distinct (type_paths r)"
proof (induction r rule: reflection.induct)
  case (ReflectionObject k es)
  have "distinct (type_paths v)" if "(name, v) \<in> set es" for name v
  proof -
    have "v \<in> Basic_BNFs.snds (name, v)" by (simp add: snds.simps)
    from ReflectionObject.IH[OF that this] wf_registry_child(3)[OF ReflectionObject.prems that]
    show ?thesis .
  qed
  with ReflectionObject.prems show ?case
    by (auto intro: distinct_type_paths_entries)
qed

lemma split_no_sep: "c \<notin> set n \<Longrightarrow> split c n = [n]"
  by (induction n) auto

lemma split_append_sep: "c \<notin> set n \<Longrightarrow> split c (n @ c # r) = n # split c r"
  by (induction n) auto

lemma split_dotted:
  "p \<noteq> [] \<Longrightarrow> (\<And>n. n \<in> set p \<Longrightarrow> CHR ''.'' \<notin> set n) \<Longrightarrow> split CHR ''.'' (dotted p) = p"
proof (induction p rule: dotted.induct)
  case 1
  then show ?case by simp
next
  case (2 n)
  then show ?case by (simp add: split_no_sep)
next
  case (3 n m ns)
  have "split CHR ''.'' (dotted (m # ns)) = m # ns"
    using 3 by simp
  moreover have "CHR ''.'' \<notin> set n" using "3.prems"(2) by simp
  ultimately show ?case using split_append_sep[of "CHR ''.''" n "dotted (m # ns)"] by simp
qed

lemma node_in_eq:
  "distinct (map fst es) \<Longrightarrow> (name, v) \<in> set es \<Longrightarrow> node_in es name p = node_at v p"
  by (induction es) (auto simp: image_iff)

lemma node_in_SomeD:
  "node_in es n p = Some t \<Longrightarrow> \<exists>v. (n, v) \<in> set es \<and> node_at v p = Some t"
  by (induction es) (auto split: if_splits)

lemma lookup_type_path:
  "wf_registry r \<Longrightarrow> p \<in> set (type_paths r) \<Longrightarrow>
     \<exists>t. lookup r p = Some t \<and> node_at r p = Some t \<and> kind t = KType"
proof (induction r arbitrary: p rule: reflection.induct)
  case (ReflectionObject k es)
  from ReflectionObject.prems(2) obtain name v where
    mem: "(name, v) \<in> set es" and
    p: "(kind v = KType \<and> p = [name]) \<or> (\<exists>p'. p' \<in> set (type_paths v) \<and> p = name # p')"
    by (auto simp: type_paths_entries_mem)
  note c = wf_registry_child[OF ReflectionObject.prems(1) mem]
  from ReflectionObject.prems(1) have d: "distinct (map fst es)" by simp
  from p show ?case
  proof
    assume "kind v = KType \<and> p = [name]"
    then show ?thesis using c(4) node_in_eq[OF d mem] by simp
  next
    assume "\<exists>p'. p' \<in> set (type_paths v) \<and> p = name # p'"
    then obtain p' where p': "p' \<in> set (type_paths v)" "p = name # p'" by blast
    have "v \<in> Basic_BNFs.snds (name, v)" by (simp add: snds.simps)
    from ReflectionObject.IH[OF mem this c(3) p'(1)]
    obtain t where t: "lookup v p' = Some t" "node_at v p' = Some t" "kind t = KType" by blast
    have ne: "p' \<noteq> []" using p'(1) by (rule type_paths_nonempty)
    have "nested v \<noteq> []" using p'(1) type_paths_leaf[of v] by auto
    then have ns: "is_namespace v" using c(3) by (intro wf_registry_has_children)
    show ?thesis using t ne ns c(4) node_in_eq[OF d mem] by (simp add: p'(2))
  qed
qed

lemma type_paths_iff_node_at:
  "wf_registry r \<Longrightarrow>
     p \<in> set (type_paths r) \<longleftrightarrow> p \<noteq> [] \<and> (\<exists>t. node_at r p = Some t \<and> kind t = KType)"
proof
  assume "wf_registry r" "p \<in> set (type_paths r)"
  then show "p \<noteq> [] \<and> (\<exists>t. node_at r p = Some t \<and> kind t = KType)"
    using lookup_type_path[of r p] type_paths_nonempty[of p r] by blast
next
  assume w: "wf_registry r" and "p \<noteq> [] \<and> (\<exists>t. node_at r p = Some t \<and> kind t = KType)"
  then obtain t where "p \<noteq> []" "node_at r p = Some t" "kind t = KType" by blast
  with w show "p \<in> set (type_paths r)"
  proof (induction p arbitrary: r)
    case Nil
    then show ?case by simp
  next
    case (Cons n p')
    obtain k es where r: "r = ReflectionObject k es" by (cases r)
    from Cons.prems(3) obtain v where v: "(n, v) \<in> set es" "node_at v p' = Some t"
      using node_in_SomeD[of es n p' t] by (auto simp: r)
    have wv: "wf_registry v" using wf_registry_child(3)[OF Cons.prems(1)[unfolded r] v(1)] .
    show ?case
    proof (cases "p' = []")
      case True
      with v Cons.prems(4) show ?thesis by (auto simp: r type_paths_entries_mem)
    next
      case False
      from Cons.IH[OF wv False v(2) Cons.prems(4)] v(1) show ?thesis
        by (auto simp: r type_paths_entries_mem)
    qed
  qed
qed

text \<open>
  C9.  For every compiled registry the extracted list is the list of dotted names of the
  message-type nodes in depth-first order, a node before its descendants; a path is listed
  exactly when it leads to a node that is a message type, so namespaces, enums and services
  are walked through and never listed; no name occurs twice; and every listed name is found
  by the registry lookup, which returns a message type.
\<close>

theorem extractTypes_lists_message_types:
  assumes "wf_registry protoRoot"
  shows "extractTypes protoRoot [] [] = map dotted (type_paths protoRoot) \<and>
         (\<forall>p. p \<in> set (type_paths protoRoot) \<longleftrightarrow>
               p \<noteq> [] \<and> (\<exists>t. node_at protoRoot p = Some t \<and> kind t = KType)) \<and>
         distinct (extractTypes protoRoot [] []) \<and>
         list_all (\<lambda>name. \<exists>t. lookupType protoRoot name = Some t \<and> kind t = KType)
           (extractTypes protoRoot [] [])"
proof (intro conjI allI)
  show e: "extractTypes protoRoot [] [] = map dotted (type_paths protoRoot)"
    by (rule extractTypes_eq[OF assms])
  show "p \<in> set (type_paths protoRoot) \<longleftrightarrow>
       p \<noteq> [] \<and> (\<exists>t. node_at protoRoot p = Some t \<and> kind t = KType)" for p
    by (rule type_paths_iff_node_at[OF assms])
  have sp: "split CHR ''.'' (dotted p) = p" if "p \<in> set (type_paths protoRoot)" for p
    using that type_paths_nonempty[OF that] type_paths_names[OF assms that]
    by (intro split_dotted) auto
  have "inj_on dotted (set (type_paths protoRoot))"
    by (rule inj_on_inverseI[where g = "split CHR ''.''"]) (rule sp)
  then show "distinct (extractTypes protoRoot [] [])"
    unfolding e using distinct_type_paths[OF assms] by (simp add: distinct_map)
  show "list_all (\<lambda>name. \<exists>t. lookupType protoRoot name = Some t \<and> kind t = KType)
           (extractTypes protoRoot [] [])"
    unfolding e list_all_iff
  proof
    fix name assume "name \<in> set (map dotted (type_paths protoRoot))"
    then obtain p where p: "p \<in> set (type_paths protoRoot)" "name = dotted p" by auto
    from lookup_type_path[OF assms p(1)] sp[OF p(1)] p(2)
    show "\<exists>t. lookupType protoRoot name = Some t \<and> kind t = KType"
      by (auto simp: lookupType_def)
  qed
qed


theorem extractTypes_lists_message_types_witness:
  "wf_registry example_registry \<and>
   extractTypes example_registry [] []
     = [''pkg.Backend'', ''pkg.Backend.Endpoint'', ''pkg.Config'', ''Ping''] \<and>
   distinct (extractTypes example_registry [] []) \<and>
   list_all (\<lambda>name. \<exists>t. lookupType example_registry name = Some t \<and> kind t = KType)
     (extractTypes example_registry [] [])"
proof -
  have w: "wf_registry example_registry"
    by (simp add: example_registry_def)
  have e: "extractTypes example_registry [] []
     = [''pkg.Backend'', ''pkg.Backend.Endpoint'', ''pkg.Config'', ''Ping'']"
    by (simp add: example_registry_def truthy_def Let_def)
  from extractTypes_lists_message_types[OF w] w e show ?thesis by blast
qed

section \<open>Stat formatter\<close>















lemma uint_byte_values:
  "uint (0 :: 8 word) = 0" "uint (1 :: 8 word) = 1" "uint (2 :: 8 word) = 2"
  "uint (30 :: 8 word) = 30" "uint (104 :: 8 word) = 104" "uint (139 :: 8 word) = 139"
  "uint (178 :: 8 word) = 178" "uint (8 :: 8 word) = 8" "uint (194 :: 8 word) = 194"
  "uint (207 :: 8 word) = 207" "uint (220 :: 8 word) = 220" "uint (229 :: 8 word) = 229"
  by simp_all







end
